theory Spec2Isabelle
  imports Main "HOL-Library.Sublist" "HOL-Library.AList"
begin

section \<open>Python string and list primitives used by py\_structure.py\<close>

text \<open>
  \<open>s.split(c)\<close> for a one-character separator: the result is never empty, and an
  empty field is produced between two adjacent separators and at either end.
\<close>

fun split_on :: "char \<Rightarrow> string \<Rightarrow> string list" where
  "split_on c [] = [[]]"
| "split_on c (x # xs) =
     (if x = c then [] # split_on c xs
      else (case split_on c xs of
              [] \<Rightarrow> [[x]]
            | y # ys \<Rightarrow> (x # y) # ys))"

text \<open>\<open>sep.join(xs)\<close>.\<close>

fun join_with :: "string \<Rightarrow> string list \<Rightarrow> string" where
  "join_with sep [] = []"
| "join_with sep [x] = x"
| "join_with sep (x # y # ys) = x @ sep @ join_with sep (y # ys)"

text \<open>\<open>s.startswith(p)\<close> and \<open>s.endswith(p)\<close>.\<close>

definition startswith :: "string \<Rightarrow> string \<Rightarrow> bool" where
  "startswith s p = (take (length p) s = p)"

definition endswith :: "string \<Rightarrow> string \<Rightarrow> bool" where
  "endswith s p = (length p \<le> length s \<and> drop (length s - length p) s = p)"

text \<open>
  The slice \<open>xs[:j]\<close>: a negative bound counts from the end, and a bound outside the
  list is clipped, so the slice never raises.
\<close>

definition slice_upto :: "'a list \<Rightarrow> int \<Rightarrow> 'a list" where
  "slice_upto xs j =
     (if j < 0 then take (nat (int (length xs) + j)) xs else take (nat j) xs)"

section \<open>Module resolver: relative imports\<close>

text \<open>
  \<open>resolve_relative_import(caller_parts, level, module)\<close>. The test \<open>if module:\<close>
  is false for \<open>None\<close> and for the empty string. No operation of the body can
  raise, so the model has no error branch.
\<close>

definition resolve_relative_import :: "string list \<Rightarrow> int \<Rightarrow> string option \<Rightarrow> string" where
  "resolve_relative_import caller_parts level module =
     (if level > int (length caller_parts) then ''<invalid>''
      else
        let base = slice_upto caller_parts (- level);
            base' = (case module of
                       None \<Rightarrow> base
                     | Some m \<Rightarrow> if m = [] then base else base @ split_on CHR ''.'' m)
        in join_with ''.'' base')"

section \<open>Query engine: modules without internal dependencies\<close>

text \<open>
  Mode \<open>nodeps\<close>: \<open>has_deps\<close> is the set comprehension over the edge list,
  \<open>no_deps\<close> the set difference. The listing is printed sorted by the output layer.
\<close>

definition has_deps :: "string set \<Rightarrow> (string \<times> string) list \<Rightarrow> string set" where
  "has_deps all_modules all_imports =
     set (map fst (filter (\<lambda>(caller, imported). imported \<in> all_modules) all_imports))"

definition no_deps :: "string set \<Rightarrow> (string \<times> string) list \<Rightarrow> string set" where
  "no_deps all_modules all_imports = all_modules - has_deps all_modules all_imports"

section \<open>Graph builder and the dependency trace\<close>

text \<open>
  The reverse graph is a dictionary from a target to the set of its callers, and the
  result of the trace is a dictionary from a node to its path. Both are association
  lists in insertion order: \<open>AList.update\<close> overwrites an existing key in place and
  appends a new one, as an assignment to a Python dict does. The list stored under a key
  of the reverse graph is the order in which that set of callers is iterated; the start
  modules are likewise given as the list in which the seed set is iterated.
\<close>

type_synonym rev_graph = "(string \<times> string list) list"
type_synonym path_dict = "(string \<times> string list) list"
type_synonym bfs_state = "(string \<times> string list) list \<times> string set \<times> path_dict"

text \<open>\<open>reverse_deps.get(current, [])\<close>.\<close>

definition dependents_of :: "rev_graph \<Rightarrow> string \<Rightarrow> string list" where
  "dependents_of reverse_deps current =
     (case map_of reverse_deps current of None \<Rightarrow> [] | Some ds \<Rightarrow> ds)"

text \<open>
  The body of \<open>for dependent in reverse_deps.get(current, [])\<close>, acting on the queue,
  the visited set and the paths dictionary.
\<close>

fun visit_dependents :: "string list \<Rightarrow> string list \<Rightarrow> bfs_state \<Rightarrow> bfs_state" where
  "visit_dependents path [] st = st"
| "visit_dependents path (dependent # rest) (queue, visited, paths) =
     visit_dependents path rest
       (if dependent \<notin> visited
        then (queue @ [(dependent, path @ [dependent])],
              insert dependent visited,
              AList.update dependent (path @ [dependent]) paths)
        else (queue, visited, paths))"

definition graph_nodes :: "rev_graph \<Rightarrow> string set" where
  "graph_nodes reverse_deps = (\<Union>(k, ds) \<in> set reverse_deps. set ds)"

text \<open>Facts about the inner loop that the termination of the outer loop rests on.\<close>

lemma visit_dependents_progress:
  "visit_dependents path ds (q, vis, ps) = (q', vis', ps') \<Longrightarrow>
   vis \<subseteq> vis' \<and> vis' \<subseteq> vis \<union> set ds \<and> (vis' = vis \<longrightarrow> q' = q)"
proof (induction ds arbitrary: q vis ps)
  case Nil
  then show ?case by simp
next
  case (Cons d ds)
  show ?case
  proof (cases "d \<in> vis")
    case True
    with Cons.prems have "visit_dependents path ds (q, vis, ps) = (q', vis', ps')" by simp
    from Cons.IH [OF this] show ?thesis by auto
  next
    case False
    with Cons.prems have "visit_dependents path ds
        (q @ [(d, path @ [d])], insert d vis, AList.update d (path @ [d]) ps) = (q', vis', ps')"
      by simp
    from Cons.IH [OF this] False show ?thesis by auto
  qed
qed

lemma dependents_of_nodes: "set (dependents_of g k) \<subseteq> graph_nodes g"
proof
  fix x assume "x \<in> set (dependents_of g k)"
  then obtain ds where "map_of g k = Some ds" "x \<in> set ds"
    by (cases "map_of g k") (auto simp: dependents_of_def)
  then have "(k, ds) \<in> set g" "x \<in> set ds" by (auto dest: map_of_SomeD)
  then show "x \<in> graph_nodes g" unfolding graph_nodes_def by blast
qed

lemma finite_graph_nodes: "finite (graph_nodes g)"
  by (auto simp: graph_nodes_def)

text \<open>
  The \<open>while queue\<close> loop. Every iteration either visits a new node of the finite
  graph or shortens the queue, so the loop terminates on every input.
\<close>

function bfs_loop :: "rev_graph \<Rightarrow> bfs_state \<Rightarrow> path_dict" where
  "bfs_loop reverse_deps ([], visited, paths) = paths"
| "bfs_loop reverse_deps ((current, path) # queue, visited, paths) =
     bfs_loop reverse_deps
       (visit_dependents path (dependents_of reverse_deps current) (queue, visited, paths))"
  by pat_completeness auto
termination
proof (relation "inv_image (less_than <*lex*> less_than)
    (\<lambda>(g, q, vis, ps). (card (graph_nodes g - vis), length q))")
  show "wf (inv_image (less_than <*lex*> less_than)
    (\<lambda>(g, q, vis, ps). (card (graph_nodes g - vis), length q)))"
    by (intro wf_inv_image wf_lex_prod wf_less_than)
next
  fix g :: rev_graph and current path queue and visited :: "string set" and paths :: path_dict
  obtain q' vis' ps' where r: "visit_dependents path (dependents_of g current)
      (queue, visited, paths) = (q', vis', ps')"
    by (cases "visit_dependents path (dependents_of g current) (queue, visited, paths)") auto
  from visit_dependents_progress [OF r] dependents_of_nodes [of g current]
  have sub: "visited \<subseteq> vis'" and new: "vis' - visited \<subseteq> graph_nodes g"
    and same: "vis' = visited \<Longrightarrow> q' = queue" by auto
  have "card (graph_nodes g - vis') < card (graph_nodes g - visited)
      \<or> (card (graph_nodes g - vis') = card (graph_nodes g - visited) \<and> length q' < Suc (length queue))"
  proof (cases "vis' = visited")
    case True
    with same show ?thesis by simp
  next
    case False
    with sub new have "graph_nodes g - vis' \<subset> graph_nodes g - visited" by blast
    then show ?thesis
      using finite_graph_nodes [of g] by (simp add: psubset_card_mono)
  qed
  then show "((g, visit_dependents path (dependents_of g current) (queue, visited, paths)),
         (g, (current, path) # queue, visited, paths))
       \<in> inv_image (less_than <*lex*> less_than)
          (\<lambda>(g, q, vis, ps). (card (graph_nodes g - vis), length q))"
    by (simp add: r)
qed

definition trace_dependency_paths :: "rev_graph \<Rightarrow> string list \<Rightarrow> path_dict" where
  "trace_dependency_paths reverse_deps start_modules =
     bfs_loop reverse_deps
       (map (\<lambda>m. (m, [m])) start_modules, set start_modules, [])"


text \<open>
  \<open>build_reverse_dep_graph\<close>: \<open>reverse_deps[imported].add(caller)\<close> on a
  \<open>defaultdict(set)\<close>.
\<close>

definition build_reverse_dep_graph :: "(string \<times> string) list \<Rightarrow> rev_graph" where
  "build_reverse_dep_graph imports =
     foldl (\<lambda>reverse_deps (caller, imported).
              AList.update_with_aux [] imported
                (\<lambda>callers. if caller \<in> set callers then callers else callers @ [caller])
                reverse_deps)
       [] imports"

text \<open>
  The direct dependents of a package (modes \<open>pkg_dep\<close> and \<open>not_pkg_dep\<close>), as the
  list in which the set comprehension is iterated.
\<close>

definition direct_dependents :: "(string \<times> string) list \<Rightarrow> string \<Rightarrow> string list" where
  "direct_dependents all_imports package =
     remdups (map fst (filter (\<lambda>(caller, imported).
        imported = package \<or> startswith imported (package @ ''.'')) all_imports))"

text \<open>
  Mode \<open>not_pkg_dep\<close>. A missing or empty package argument is the usage error, after
  which nothing is computed.
\<close>

definition not_pkg_dep ::
  "string set \<Rightarrow> (string \<times> string) list \<Rightarrow> string option \<Rightarrow> string set option" where
  "not_pkg_dep all_modules all_imports package =
     (case package of
        None \<Rightarrow> None
      | Some pkg \<Rightarrow>
          if pkg = [] then None
          else
            let reverse_deps = build_reverse_dep_graph all_imports;
                direct = direct_dependents all_imports pkg;
                paths = trace_dependency_paths reverse_deps direct;
                all_dependent = fst ` set paths \<union> set direct
            in Some (all_modules - all_dependent))"

section \<open>Walks in the reverse graph and the invariant of the trace\<close>

fun is_walk :: "rev_graph \<Rightarrow> string list \<Rightarrow> bool" where
  "is_walk g [] = False"
| "is_walk g [v] = True"
| "is_walk g (u # v # rest) = (v \<in> set (dependents_of g u) \<and> is_walk g (v # rest))"

definition rec_path :: "path_dict \<Rightarrow> string \<Rightarrow> string list" where
  "rec_path ps v = (case map_of ps v of Some p \<Rightarrow> p | None \<Rightarrow> [v])"

definition bfs_base :: "rev_graph \<Rightarrow> string set \<Rightarrow> string set \<Rightarrow> bfs_state \<Rightarrow> bool" where
  "bfs_base g S X st = (case st of (q, vis, ps) \<Rightarrow>
     vis = S \<union> fst ` set ps \<and>
     (\<forall>v p. map_of ps v = Some p \<longrightarrow> v \<notin> S \<and> is_walk g p \<and> hd p \<in> S \<and> last p = v) \<and>
     (\<forall>x \<in> set q. fst x \<in> vis \<and> snd x = rec_path ps (fst x)) \<and>
     sorted (map (length \<circ> snd) q) \<and>
     (\<forall>u \<in> vis - fst ` set q - X. \<forall>w \<in> set (dependents_of g u).
        w \<in> vis \<and> length (rec_path ps w) \<le> length (rec_path ps u) + 1))"

definition bfs_lvl :: "nat \<Rightarrow> bfs_state \<Rightarrow> bool" where
  "bfs_lvl d st = (case st of (q, vis, ps) \<Rightarrow>
     (\<forall>x \<in> set q. d \<le> length (snd x)) \<and>
     (\<forall>v \<in> vis. length (rec_path ps v) \<le> d + 1))"

definition bfs_inv :: "rev_graph \<Rightarrow> string set \<Rightarrow> bfs_state \<Rightarrow> bool" where
  "bfs_inv g S st = (bfs_base g S {} st \<and>
     (case st of (q, vis, ps) \<Rightarrow> q \<noteq> [] \<longrightarrow> bfs_lvl (length (snd (hd q))) st))"


section \<open>Properties of the string primitives\<close>

lemma split_on_nonempty: "split_on c s \<noteq> []"
  by (induction s) (auto split: list.splits)

lemma join_with_Cons:
  "xs \<noteq> [] \<Longrightarrow> join_with sep (x # xs) = x @ sep @ join_with sep xs"
  by (cases xs) simp_all

lemma set_join_with:
  "set (join_with sep xs) \<subseteq> set sep \<union> (\<Union>x\<in>set xs. set x)"
  by (induction sep xs rule: join_with.induct) auto

lemma set_split_on: "x \<in> set (split_on c s) \<Longrightarrow> set x \<subseteq> set s"
  by (induction s arbitrary: x) (fastforce split: list.splits if_splits)+

section \<open>Relative import resolution\<close>

lemma slice_upto_neg:
  "0 < level \<Longrightarrow> level \<le> int (length xs) \<Longrightarrow>
   slice_upto xs (- level) = take (length xs - nat level) xs"
  by (simp add: slice_upto_def nat_diff_distrib')

text \<open>
  Claim C2 as stated fails: the sentinel is an ordinary string, and the dot-join of the
  remaining segments can spell it. A caller \<open><invalid>.m\<close> importing \<open>from . import x\<close>
  stays within its depth and still resolves to the sentinel.
\<close>

theorem resolve_relative_sentinel_counterexample:
  "resolve_relative_import [''<invalid>'', ''m''] 1 None = ''<invalid>''
   \<and> \<not> (1 > int (length [''<invalid>'', ''m'']))"
  by (simp add: resolve_relative_import_def slice_upto_def)

text \<open>
  Claim C2, amended: for a level of at least one, the result is the sentinel whenever
  the level exceeds the number of caller segments; otherwise it is the dot-join of the
  caller parts without their last \<open>level\<close> segments, followed by the segments of a
  non-empty module suffix. When no caller segment and no suffix contains the character
  \<open><\<close>, the sentinel is returned exactly when the level exceeds the number of caller
  segments. The function is total: it has no raising branch.
\<close>

theorem resolve_relative_import_spec:
  assumes "1 \<le> level"
  shows "(int (length caller_parts) < level \<longrightarrow>
            resolve_relative_import caller_parts level module = ''<invalid>'')
       \<and> (level \<le> int (length caller_parts) \<longrightarrow>
            resolve_relative_import caller_parts level module =
              join_with ''.''
                (take (length caller_parts - nat level) caller_parts @
                 (case module of None \<Rightarrow> []
                  | Some m \<Rightarrow> if m = [] then [] else split_on CHR ''.'' m)))
       \<and> ((\<forall>p \<in> set caller_parts. CHR ''<'' \<notin> set p) \<and>
          (\<forall>m. module = Some m \<longrightarrow> CHR ''<'' \<notin> set m) \<longrightarrow>
            (resolve_relative_import caller_parts level module = ''<invalid>''
               \<longleftrightarrow> int (length caller_parts) < level))"
proof (intro conjI impI)
  assume "int (length caller_parts) < level"
  then show "resolve_relative_import caller_parts level module = ''<invalid>''"
    by (simp add: resolve_relative_import_def)
next
  assume le: "level \<le> int (length caller_parts)"
  with assms have sl: "slice_upto caller_parts (- level) =
      take (length caller_parts - nat level) caller_parts"
    by (intro slice_upto_neg) simp_all
  from le show "resolve_relative_import caller_parts level module =
      join_with ''.''
        (take (length caller_parts - nat level) caller_parts @
         (case module of None \<Rightarrow> []
          | Some m \<Rightarrow> if m = [] then [] else split_on CHR ''.'' m))"
    by (simp add: resolve_relative_import_def sl Let_def split: option.splits)
next
  assume clean: "(\<forall>p \<in> set caller_parts. CHR ''<'' \<notin> set p) \<and>
          (\<forall>m. module = Some m \<longrightarrow> CHR ''<'' \<notin> set m)"
  show "resolve_relative_import caller_parts level module = ''<invalid>''
          \<longleftrightarrow> int (length caller_parts) < level"
  proof (cases "int (length caller_parts) < level")
    case True
    then show ?thesis by (simp add: resolve_relative_import_def)
  next
    case False
    define segs where "segs = take (length caller_parts - nat level) caller_parts @
         (case module of None \<Rightarrow> []
          | Some m \<Rightarrow> if m = [] then [] else split_on CHR ''.'' m)"
    from False assms have sl: "slice_upto caller_parts (- level) =
        take (length caller_parts - nat level) caller_parts"
      by (intro slice_upto_neg) simp_all
    from False have r: "resolve_relative_import caller_parts level module =
        join_with ''.'' segs"
      by (simp add: resolve_relative_import_def sl Let_def segs_def split: option.splits)
    have "\<forall>s \<in> set segs. CHR ''<'' \<notin> set s"
    proof
      fix s assume "s \<in> set segs"
      then consider "s \<in> set caller_parts"
        | m where "module = Some m" "s \<in> set (split_on CHR ''.'' m)"
        by (auto simp: segs_def dest: in_set_takeD split: option.splits if_splits)
      then show "CHR ''<'' \<notin> set s"
      proof cases
        case 1
        with clean show ?thesis by blast
      next
        case 2
        with clean set_split_on [of s "CHR ''.''" m] show ?thesis by blast
      qed
    qed
    then have "CHR ''<'' \<notin> set (join_with ''.'' segs)"
      using set_join_with [of "''.''" segs] by auto
    then have "join_with ''.'' segs \<noteq> ''<invalid>''" by auto
    with r False show ?thesis by simp
  qed
qed

theorem resolve_relative_import_spec_witness:
  "(1::int) \<le> 1
   \<and> resolve_relative_import [''a'', ''b'', ''c''] 1 (Some ''d.e'') = ''a.b.d.e''
   \<and> resolve_relative_import [''a'', ''b'', ''c''] 4 (Some ''d.e'') = ''<invalid>''"
  using resolve_relative_import_spec [of 1 "[''a'', ''b'', ''c'']" "Some ''d.e''"]
    resolve_relative_import_spec [of 4 "[''a'', ''b'', ''c'']" "Some ''d.e''"]
  by simp

section \<open>Modules without internal dependencies\<close>

text \<open>
  Claim C4: a module is in the \<open>nodeps\<close> result iff it is a known module and no edge
  leads from it to a known module; the result is the module set minus the callers of
  edges into the module set.
\<close>

theorem no_deps_spec:
  "(M \<in> no_deps all_modules all_imports \<longleftrightarrow>
      M \<in> all_modules \<and> \<not> (\<exists>target. (M, target) \<in> set all_imports \<and> target \<in> all_modules))
   \<and> no_deps all_modules all_imports =
       all_modules - {caller. \<exists>target. (caller, target) \<in> set all_imports \<and> target \<in> all_modules}"
  by (force simp: no_deps_def has_deps_def)

theorem no_deps_spec_witness:
  "no_deps {''pkgA.__init__'', ''pkgA.a'', ''pkgA.b''} [(''pkgA.a'', ''pkgA.b''), (''pkgA.b'', ''os'')]
     = {''pkgA.__init__'', ''pkgA.b''}"
  using no_deps_spec [of "''pkgA.a''" "{''pkgA.__init__'', ''pkgA.a'', ''pkgA.b''}"
      "[(''pkgA.a'', ''pkgA.b''), (''pkgA.b'', ''os'')]"]
  by (auto simp: no_deps_def has_deps_def)

section \<open>Correctness of the dependency trace\<close>

lemma bfs_baseD:
  assumes "bfs_base g S X (q, vis, ps)"
  shows "vis = S \<union> fst ` set ps"
    and "\<And>v p. map_of ps v = Some p \<Longrightarrow> v \<notin> S \<and> is_walk g p \<and> hd p \<in> S \<and> last p = v"
    and "\<And>x. x \<in> set q \<Longrightarrow> fst x \<in> vis \<and> snd x = rec_path ps (fst x)"
    and "sorted (map (length \<circ> snd) q)"
    and "\<And>u w. u \<in> vis \<Longrightarrow> u \<notin> fst ` set q \<Longrightarrow> u \<notin> X \<Longrightarrow> w \<in> set (dependents_of g u) \<Longrightarrow>
           w \<in> vis \<and> length (rec_path ps w) \<le> length (rec_path ps u) + 1"
proof -
  from assms have a: "vis = S \<union> fst ` set ps \<and>
     (\<forall>v p. map_of ps v = Some p \<longrightarrow> v \<notin> S \<and> is_walk g p \<and> hd p \<in> S \<and> last p = v) \<and>
     (\<forall>x \<in> set q. fst x \<in> vis \<and> snd x = rec_path ps (fst x)) \<and>
     sorted (map (length \<circ> snd) q) \<and>
     (\<forall>u \<in> vis - fst ` set q - X. \<forall>w \<in> set (dependents_of g u).
        w \<in> vis \<and> length (rec_path ps w) \<le> length (rec_path ps u) + 1)"
    unfolding bfs_base_def prod.case .
  from a show "vis = S \<union> fst ` set ps" by (elim conjE)
  from a show "\<And>v p. map_of ps v = Some p \<Longrightarrow> v \<notin> S \<and> is_walk g p \<and> hd p \<in> S \<and> last p = v"
    by (elim conjE) (erule allE, erule allE, erule (1) impE)
  from a have "\<forall>x \<in> set q. fst x \<in> vis \<and> snd x = rec_path ps (fst x)" by (elim conjE)
  then show "\<And>x. x \<in> set q \<Longrightarrow> fst x \<in> vis \<and> snd x = rec_path ps (fst x)" by (rule bspec)
  from a show "sorted (map (length \<circ> snd) q)" by (elim conjE)
  from a have c: "\<forall>u \<in> vis - fst ` set q - X. \<forall>w \<in> set (dependents_of g u).
        w \<in> vis \<and> length (rec_path ps w) \<le> length (rec_path ps u) + 1" by (elim conjE)
  show "\<And>u w. u \<in> vis \<Longrightarrow> u \<notin> fst ` set q \<Longrightarrow> u \<notin> X \<Longrightarrow> w \<in> set (dependents_of g u) \<Longrightarrow>
           w \<in> vis \<and> length (rec_path ps w) \<le> length (rec_path ps u) + 1"
  proof -
    fix u w assume "u \<in> vis" "u \<notin> fst ` set q" "u \<notin> X" and w: "w \<in> set (dependents_of g u)"
    then have "u \<in> vis - fst ` set q - X" by (intro DiffI)
    from bspec [OF bspec [OF c this] w]
    show "w \<in> vis \<and> length (rec_path ps w) \<le> length (rec_path ps u) + 1" .
  qed
qed

lemma bfs_baseI:
  assumes "vis = S \<union> fst ` set ps"
    and "\<And>v p. map_of ps v = Some p \<Longrightarrow> v \<notin> S \<and> is_walk g p \<and> hd p \<in> S \<and> last p = v"
    and "\<And>x. x \<in> set q \<Longrightarrow> fst x \<in> vis \<and> snd x = rec_path ps (fst x)"
    and "sorted (map (length \<circ> snd) q)"
    and "\<And>u w. u \<in> vis \<Longrightarrow> u \<notin> fst ` set q \<Longrightarrow> u \<notin> X \<Longrightarrow> w \<in> set (dependents_of g u) \<Longrightarrow>
           w \<in> vis \<and> length (rec_path ps w) \<le> length (rec_path ps u) + 1"
  shows "bfs_base g S X (q, vis, ps)"
proof -
  have 2: "\<forall>v p. map_of ps v = Some p \<longrightarrow> v \<notin> S \<and> is_walk g p \<and> hd p \<in> S \<and> last p = v"
    using assms(2) by (intro allI impI)
  have 3: "\<forall>x \<in> set q. fst x \<in> vis \<and> snd x = rec_path ps (fst x)"
    using assms(3) by (intro ballI)
  have 5: "\<forall>u \<in> vis - fst ` set q - X. \<forall>w \<in> set (dependents_of g u).
        w \<in> vis \<and> length (rec_path ps w) \<le> length (rec_path ps u) + 1"
  proof (intro ballI)
    fix u w assume "u \<in> vis - fst ` set q - X" "w \<in> set (dependents_of g u)"
    then have *: "u \<in> vis" "u \<notin> fst ` set q" "u \<notin> X" "w \<in> set (dependents_of g u)"
      by simp_all
    from assms(5) [OF *]
    show "w \<in> vis \<and> length (rec_path ps w) \<le> length (rec_path ps u) + 1" .
  qed
  show ?thesis
    unfolding bfs_base_def prod.case
    by (rule conjI [OF assms(1) conjI [OF 2 conjI [OF 3 conjI [OF assms(4) 5]]]])
qed

lemma bfs_lvlD:
  assumes "bfs_lvl d (q, vis, ps)"
  shows "\<And>x. x \<in> set q \<Longrightarrow> d \<le> length (snd x)"
    and "\<And>v. v \<in> vis \<Longrightarrow> length (rec_path ps v) \<le> d + 1"
  using assms unfolding bfs_lvl_def prod.case by simp_all

lemma bfs_lvlI:
  assumes "\<And>x. x \<in> set q \<Longrightarrow> d \<le> length (snd x)"
    and "\<And>v. v \<in> vis \<Longrightarrow> length (rec_path ps v) \<le> d + 1"
  shows "bfs_lvl d (q, vis, ps)"
  unfolding bfs_lvl_def prod.case using assms by simp

lemma is_walk_nonempty: "is_walk g p \<Longrightarrow> p \<noteq> []"
  by (cases p) simp_all

lemma is_walk_snoc:
  "p \<noteq> [] \<Longrightarrow> is_walk g (p @ [d]) = (is_walk g p \<and> d \<in> set (dependents_of g (last p)))"
  by (induction g p rule: is_walk.induct) auto

lemma rec_path_update:
  "rec_path (AList.update d p ps) v = (if v = d then p else rec_path ps v)"
  by (simp add: rec_path_def update_conv')

lemma map_of_None_iff: "map_of ps v = None \<longleftrightarrow> v \<notin> fst ` set ps"
  by (simp add: map_of_eq_None_iff)

lemma visit_step:
  assumes base: "bfs_base g S {cur} (q, vis, ps)"
    and lvl: "bfs_lvl (length path) (q, vis, ps)"
    and cur: "cur \<in> vis" "rec_path ps cur = path"
    and walk: "is_walk g path" "hd path \<in> S" "last path = cur"
    and d: "d \<in> set (dependents_of g cur)" "d \<notin> vis"
  shows "bfs_base g S {cur}
           (q @ [(d, path @ [d])], insert d vis, AList.update d (path @ [d]) ps)"
    and "bfs_lvl (length path)
           (q @ [(d, path @ [d])], insert d vis, AList.update d (path @ [d]) ps)"
proof -
  let ?ps = "AList.update d (path @ [d]) ps"
  note b = bfs_baseD [OF base] and l = bfs_lvlD [OF lvl]
  from walk(1) have ne: "path \<noteq> []" by (rule is_walk_nonempty)
  from d(2) b(1) have dS: "d \<notin> S" and dps: "d \<notin> fst ` set ps" by auto
  have old: "\<And>v. v \<in> vis \<Longrightarrow> rec_path ?ps v = rec_path ps v"
    using d(2) by (auto simp: rec_path_update)
  have new: "rec_path ?ps d = path @ [d]" by (simp add: rec_path_update)
  show "bfs_base g S {cur} (q @ [(d, path @ [d])], insert d vis, ?ps)"
  proof (rule bfs_baseI)
    show "insert d vis = S \<union> fst ` set ?ps"
      using b(1) by (auto simp: dom_update)
  next
    fix v p assume "map_of ?ps v = Some p"
    then consider "v = d" "p = path @ [d]" | "v \<noteq> d" "map_of ps v = Some p"
      by (auto simp: update_conv' split: if_splits)
    then show "v \<notin> S \<and> is_walk g p \<and> hd p \<in> S \<and> last p = v"
    proof cases
      case 1
      with dS ne walk d(1) show ?thesis by (simp add: is_walk_snoc)
    next
      case 2
      then show ?thesis by (simp add: b(2))
    qed
  next
    fix x assume "x \<in> set (q @ [(d, path @ [d])])"
    then consider "x \<in> set q" | "x = (d, path @ [d])" by auto
    then show "fst x \<in> insert d vis \<and> snd x = rec_path ?ps (fst x)"
    proof cases
      case 1
      from b(3) [OF 1] old show ?thesis by simp
    next
      case 2
      with new show ?thesis by simp
    qed
  next
    have "\<forall>x \<in> set q. length (snd x) \<le> length path + 1"
      using b(3) l(2) by fastforce
    with b(4) show "sorted (map (length \<circ> snd) (q @ [(d, path @ [d])]))"
      by (auto simp: sorted_append)
  next
    fix u w
    assume "u \<in> insert d vis" "u \<notin> fst ` set (q @ [(d, path @ [d])])" "u \<notin> {cur}"
      and w: "w \<in> set (dependents_of g u)"
    then have u': "u \<in> vis" "u \<notin> fst ` set q" "u \<notin> {cur}" by auto
    from b(5) [OF u' w] have "w \<in> vis" "length (rec_path ps w) \<le> length (rec_path ps u) + 1"
      by auto
    with old u'(1) show "w \<in> insert d vis \<and>
        length (rec_path ?ps w) \<le> length (rec_path ?ps u) + 1" by simp
  qed
  show "bfs_lvl (length path) (q @ [(d, path @ [d])], insert d vis, ?ps)"
  proof (rule bfs_lvlI)
    fix x assume "x \<in> set (q @ [(d, path @ [d])])"
    then consider "x \<in> set q" | "x = (d, path @ [d])" by auto
    then show "length path \<le> length (snd x)"
    proof cases
      case 1
      then show ?thesis by (rule l(1))
    next
      case 2
      then show ?thesis by simp
    qed
  next
    fix v assume "v \<in> insert d vis"
    then show "length (rec_path ?ps v) \<le> length path + 1"
      using l(2) old new by auto
  qed
qed

lemma visit_dependents_inv:
  assumes "bfs_base g S {cur} (q, vis, ps)"
    and "bfs_lvl (length path) (q, vis, ps)"
    and "cur \<in> vis" "rec_path ps cur = path"
    and "is_walk g path" "hd path \<in> S" "last path = cur"
    and "set ds \<subseteq> set (dependents_of g cur)"
    and "visit_dependents path ds (q, vis, ps) = (q', vis', ps')"
  shows "bfs_base g S {cur} (q', vis', ps') \<and> bfs_lvl (length path) (q', vis', ps')
       \<and> vis \<union> set ds \<subseteq> vis' \<and> rec_path ps' cur = path"
  using assms
proof (induction ds arbitrary: q vis ps)
  case Nil
  then show ?case by simp
next
  case (Cons d ds)
  show ?case
  proof (cases "d \<in> vis")
    case True
    with Cons.prems have r: "visit_dependents path ds (q, vis, ps) = (q', vis', ps')"
      and sub: "set ds \<subseteq> set (dependents_of g cur)" by simp_all
    from Cons.IH [OF Cons.prems(1-7) sub r] True show ?thesis by auto
  next
    case False
    from False Cons.prems have r: "visit_dependents path ds
        (q @ [(d, path @ [d])], insert d vis, AList.update d (path @ [d]) ps) = (q', vis', ps')"
      and sub: "set ds \<subseteq> set (dependents_of g cur)"
      and d: "d \<in> set (dependents_of g cur)" by simp_all
    note step = visit_step [OF Cons.prems(1-7) d False]
    have c: "cur \<in> insert d vis" using Cons.prems(3) by simp
    have rp: "rec_path (AList.update d (path @ [d]) ps) cur = path"
      using Cons.prems(3,4) False by (auto simp: rec_path_update)
    from Cons.IH [OF step(1) step(2) c rp Cons.prems(5-7) sub r] show ?thesis by auto
  qed
qed

lemma bfs_inv_step:
  assumes inv: "bfs_inv g S ((cur, path) # q, vis, ps)"
  shows "bfs_inv g S (visit_dependents path (dependents_of g cur) (q, vis, ps))"
proof -
  obtain q' vis' ps' where r:
    "visit_dependents path (dependents_of g cur) (q, vis, ps) = (q', vis', ps')"
    by (cases "visit_dependents path (dependents_of g cur) (q, vis, ps)") auto
  from inv have base: "bfs_base g S {} ((cur, path) # q, vis, ps)"
    and lvl: "bfs_lvl (length path) ((cur, path) # q, vis, ps)"
    by (simp_all add: bfs_inv_def)
  note b = bfs_baseD [OF base] and l = bfs_lvlD [OF lvl]
  from b(3) [of "(cur, path)"] have cur: "cur \<in> vis" "rec_path ps cur = path" by simp_all
  have walk: "is_walk g path \<and> hd path \<in> S \<and> last path = cur"
  proof (cases "map_of ps cur")
    case None
    then have "cur \<notin> fst ` set ps" by (simp add: map_of_None_iff)
    with cur(1) b(1) have "cur \<in> S" by simp
    moreover from None cur(2) have "path = [cur]" by (simp add: rec_path_def)
    ultimately show ?thesis by simp
  next
    case (Some p)
    with cur(2) have "p = path" by (simp add: rec_path_def)
    with b(2) [OF Some] show ?thesis by simp
  qed
  have base1: "bfs_base g S {cur} (q, vis, ps)"
  proof (rule bfs_baseI)
    show "vis = S \<union> fst ` set ps" by (rule b(1))
    show "\<And>v p. map_of ps v = Some p \<Longrightarrow> v \<notin> S \<and> is_walk g p \<and> hd p \<in> S \<and> last p = v"
      by (rule b(2))
    show "\<And>x. x \<in> set q \<Longrightarrow> fst x \<in> vis \<and> snd x = rec_path ps (fst x)"
      using b(3) by simp
    show "sorted (map (length \<circ> snd) q)" using b(4) by simp
    show "\<And>u w. u \<in> vis \<Longrightarrow> u \<notin> fst ` set q \<Longrightarrow> u \<notin> {cur} \<Longrightarrow>
        w \<in> set (dependents_of g u) \<Longrightarrow>
        w \<in> vis \<and> length (rec_path ps w) \<le> length (rec_path ps u) + 1"
      using b(5) by simp
  qed
  have lvl1: "bfs_lvl (length path) (q, vis, ps)"
    using l by (intro bfs_lvlI) simp_all
  from visit_dependents_inv [OF base1 lvl1 cur _ _ _ subset_refl r] walk
  have base2: "bfs_base g S {cur} (q', vis', ps')"
    and lvl2: "bfs_lvl (length path) (q', vis', ps')"
    and deps: "set (dependents_of g cur) \<subseteq> vis'" and mono: "vis \<subseteq> vis'"
    and rp: "rec_path ps' cur = path"
    by auto
  note b' = bfs_baseD [OF base2] and l' = bfs_lvlD [OF lvl2]
  have base3: "bfs_base g S {} (q', vis', ps')"
  proof (rule bfs_baseI)
    show "vis' = S \<union> fst ` set ps'" by (rule b'(1))
    show "\<And>v p. map_of ps' v = Some p \<Longrightarrow> v \<notin> S \<and> is_walk g p \<and> hd p \<in> S \<and> last p = v"
      by (rule b'(2))
    show "\<And>x. x \<in> set q' \<Longrightarrow> fst x \<in> vis' \<and> snd x = rec_path ps' (fst x)"
      by (rule b'(3))
    show "sorted (map (length \<circ> snd) q')" by (rule b'(4))
  next
    fix u w
    assume u: "u \<in> vis'" "u \<notin> fst ` set q'" "u \<notin> {}" and w: "w \<in> set (dependents_of g u)"
    show "w \<in> vis' \<and> length (rec_path ps' w) \<le> length (rec_path ps' u) + 1"
    proof (cases "u = cur")
      case True
      with w deps have "w \<in> vis'" by auto
      with l'(2) [of w] rp True show ?thesis by simp
    next
      case False
      then have "u \<notin> {cur}" by simp
      from b'(5) [OF u(1,2) this w] show ?thesis .
    qed
  qed
  have "q' \<noteq> [] \<Longrightarrow> bfs_lvl (length (snd (hd q'))) (q', vis', ps')"
  proof -
    assume ne: "q' \<noteq> []"
    then obtain x xs where q': "q' = x # xs" by (cases q') auto
    from l'(1) [of x] q' have lo: "length path \<le> length (snd x)" by simp
    show ?thesis
    proof (rule bfs_lvlI)
      fix y assume "y \<in> set q'"
      with b'(4) q' show "length (snd (hd q')) \<le> length (snd y)" by auto
    next
      fix v assume "v \<in> vis'"
      from l'(2) [OF this] lo q' show "length (rec_path ps' v) \<le> length (snd (hd q')) + 1"
        by simp
    qed
  qed
  with base3 show ?thesis by (simp add: bfs_inv_def r)
qed

lemma bfs_loop_inv:
  "bfs_inv g S st \<Longrightarrow>
   bfs_base g S {} ([], S \<union> fst ` set (bfs_loop g st), bfs_loop g st)"
proof (induction g st rule: bfs_loop.induct)
  case (1 g visited paths)
  then show ?case
    using bfs_baseD(1) [of g S "{}" "[]" visited paths] by (simp add: bfs_inv_def)
next
  case (2 g current path queue visited paths)
  from bfs_inv_step [OF "2.prems"] "2.IH" show ?case by simp
qed

lemma bfs_inv_init:
  "bfs_inv g (set seeds) (map (\<lambda>m. (m, [m])) seeds, set seeds, [])"
proof -
  have "bfs_base g (set seeds) {} (map (\<lambda>m. (m, [m])) seeds, set seeds, [])"
  proof (rule bfs_baseI)
    show "sorted (map (length \<circ> snd) (map (\<lambda>m. (m, [m])) seeds))"
      by (induction seeds) simp_all
  qed (auto simp: rec_path_def image_iff)
  moreover have "bfs_lvl 1 (map (\<lambda>m. (m, [m])) seeds, set seeds, [])"
    by (rule bfs_lvlI) (auto simp: rec_path_def)
  ultimately show ?thesis
    by (cases seeds) (simp_all add: bfs_inv_def)
qed

lemma trace_final:
  "bfs_base g (set seeds) {}
     ([], set seeds \<union> fst ` set (trace_dependency_paths g seeds), trace_dependency_paths g seeds)"
  unfolding trace_dependency_paths_def by (rule bfs_loop_inv [OF bfs_inv_init])


lemma trace_sound:
  assumes "map_of (trace_dependency_paths g seeds) v = Some p"
  shows "v \<notin> set seeds \<and> is_walk g p \<and> hd p \<in> set seeds \<and> last p = v"
  using bfs_baseD(2) [OF trace_final assms] .

lemma trace_walk_reached:
  assumes "is_walk g w" and "hd w \<in> set seeds"
  shows "last w \<in> set seeds \<union> fst ` set (trace_dependency_paths g seeds) \<and>
         length (rec_path (trace_dependency_paths g seeds) (last w)) \<le> length w"
  using assms
proof (induction w rule: rev_induct)
  case Nil
  then show ?case by simp
next
  case (snoc x xs)
  let ?ps = "trace_dependency_paths g seeds"
  note b = bfs_baseD [OF trace_final [of g seeds]]
  show ?case
  proof (cases "xs = []")
    case True
    with snoc.prems have x: "x \<in> set seeds" by simp
    have "map_of ?ps x = None"
    proof (cases "map_of ?ps x")
      case (Some p)
      from b(2) [OF Some] x show ?thesis by simp
    qed simp
    with x True show ?thesis by (simp add: rec_path_def)
  next
    case False
    with snoc.prems have w: "is_walk g xs" "x \<in> set (dependents_of g (last xs))"
      and h: "hd xs \<in> set seeds" by (simp_all add: is_walk_snoc)
    from snoc.IH [OF w(1) h] have u: "last xs \<in> set seeds \<union> fst ` set ?ps"
      and len: "length (rec_path ?ps (last xs)) \<le> length xs" by simp_all
    from b(5) [OF u _ _ w(2)] len show ?thesis by simp
  qed
qed

lemma trace_min:
  assumes "map_of (trace_dependency_paths g seeds) v = Some p"
    and "is_walk g w" "hd w \<in> set seeds" "last w = v"
  shows "length p \<le> length w"
  using trace_walk_reached [OF assms(2,3)] assms(1,4) by (simp add: rec_path_def)

lemma trace_complete:
  assumes "is_walk g w" "hd w \<in> set seeds" "last w \<notin> set seeds"
  shows "last w \<in> fst ` set (trace_dependency_paths g seeds)"
  using trace_walk_reached [OF assms(1,2)] assms(3) by simp

lemma is_walk_cong:
  assumes "\<forall>k. set (dependents_of g1 k) = set (dependents_of g2 k)"
  shows "is_walk g1 w = is_walk g2 w"
  using assms by (induction g1 w rule: is_walk.induct) simp_all

lemma keys_map_of: "v \<in> fst ` set ps \<Longrightarrow> \<exists>p. map_of ps v = Some p"
  by (cases "map_of ps v") (simp_all add: map_of_None_iff)

lemma map_of_keys: "map_of ps v = Some p \<Longrightarrow> v \<in> fst ` set ps"
  by (cases "v \<in> fst ` set ps") (simp_all add: map_of_None_iff [symmetric])

lemma trace_keys_mono:
  assumes eq: "\<forall>k. set (dependents_of g1 k) = set (dependents_of g2 k)"
    and seeds: "set seeds1 = set seeds2"
  shows "fst ` set (trace_dependency_paths g1 seeds1) \<subseteq> fst ` set (trace_dependency_paths g2 seeds2)"
proof
  fix v assume a: "v \<in> fst ` set (trace_dependency_paths g1 seeds1)"
  from keys_map_of [OF a] obtain p
    where p: "map_of (trace_dependency_paths g1 seeds1) v = Some p" by blast
  from trace_sound [OF p] is_walk_cong [OF eq, of p] seeds
  have "is_walk g2 p" "hd p \<in> set seeds2" "last p \<notin> set seeds2" "last p = v" by simp_all
  from trace_complete [OF this(1-3)] this(4)
  show "v \<in> fst ` set (trace_dependency_paths g2 seeds2)" by simp
qed

lemma trace_length_le:
  assumes eq: "\<forall>k. set (dependents_of g1 k) = set (dependents_of g2 k)"
    and seeds: "set seeds1 = set seeds2"
    and p1: "map_of (trace_dependency_paths g1 seeds1) v = Some p1"
    and p2: "map_of (trace_dependency_paths g2 seeds2) v = Some p2"
  shows "length p1 \<le> length p2"
proof -
  from trace_sound [OF p2] is_walk_cong [OF eq, of p2] seeds
  have "is_walk g1 p2" "hd p2 \<in> set seeds1" "last p2 = v" by simp_all
  from trace_min [OF p1 this] show ?thesis .
qed

lemma dependents_build:
  "set (dependents_of (build_reverse_dep_graph edges) k) = {c. (c, k) \<in> set edges}"
proof -
  have "set (dependents_of (foldl (\<lambda>reverse_deps (caller, imported).
              AList.update_with_aux [] imported
                (\<lambda>callers. if caller \<in> set callers then callers else callers @ [caller])
                reverse_deps) g edges) k)
      = set (dependents_of g k) \<union> {c. (c, k) \<in> set edges}" for g
  proof (induction edges arbitrary: g)
    case Nil
    then show ?case by simp
  next
    case (Cons e edges)
    obtain c i where e: "e = (c, i)" by (cases e)
    have "set (dependents_of (AList.update_with_aux [] i
            (\<lambda>callers. if c \<in> set callers then callers else callers @ [c]) g) k)
        = set (dependents_of g k) \<union> (if i = k then {c} else {})"
      by (auto simp: dependents_of_def map_of_update_with_aux split: option.splits)
    with Cons.IH show ?case by (auto simp: e)
  qed
  from this [of "[]"] show ?thesis
    by (simp add: build_reverse_dep_graph_def dependents_of_def)
qed

lemma is_walk_last_edge:
  "is_walk g p \<Longrightarrow> 2 \<le> length p \<Longrightarrow> \<exists>u. last p \<in> set (dependents_of g u)"
proof (induction g p rule: is_walk.induct)
  case (3 g u v rest)
  show ?case
  proof (cases rest)
    case Nil
    with "3.prems" show ?thesis by auto
  next
    case (Cons r rs)
    with "3.prems" "3.IH" show ?thesis by simp
  qed
qed simp_all

lemma trace_keys_dependents:
  assumes "v \<in> fst ` set (trace_dependency_paths g seeds)"
  shows "\<exists>u. v \<in> set (dependents_of g u)"
proof -
  from keys_map_of [OF assms] obtain p
    where p: "map_of (trace_dependency_paths g seeds) v = Some p" by blast
  from trace_sound [OF p] have w: "is_walk g p" "hd p \<in> set seeds" "last p = v" "v \<notin> set seeds"
    by simp_all
  have "2 \<le> length p"
  proof (cases p)
    case Nil
    with w(1) show ?thesis by simp
  next
    case (Cons x xs)
    with w(2,3,4) show ?thesis by (cases xs) auto
  qed
  from is_walk_last_edge [OF w(1) this] w(3) show ?thesis by simp
qed


text \<open>
  Claim C3: every path recorded by the trace starts at a seed, follows edges of the
  reverse graph, ends at the node it is recorded for, and no walk from a seed to that
  node has fewer hops.
\<close>

theorem trace_paths_shortest:
  assumes "map_of (trace_dependency_paths reverse_deps start_modules) node = Some path"
  shows "is_walk reverse_deps path \<and> hd path \<in> set start_modules \<and> last path = node
       \<and> (\<forall>w. is_walk reverse_deps w \<and> hd w \<in> set start_modules \<and> last w = node
              \<longrightarrow> length path - 1 \<le> length w - 1)"
proof -
  from trace_sound [OF assms]
  have "is_walk reverse_deps path \<and> hd path \<in> set start_modules \<and> last path = node"
    by simp
  moreover have "length path - 1 \<le> length w - 1"
    if "is_walk reverse_deps w \<and> hd w \<in> set start_modules \<and> last w = node" for w
  proof -
    from that have "length path \<le> length w"
      by (intro trace_min [OF assms]) simp_all
    then show ?thesis by simp
  qed
  ultimately show ?thesis by blast
qed

theorem trace_paths_shortest_witness:
  "map_of (trace_dependency_paths
      [(''p'', [''a'', ''b'']), (''a'', [''c'']), (''b'', [''c'', ''a'']), (''c'', [''d'', ''a''])]
      [''a'', ''b'']) ''d'' = Some [''a'', ''c'', ''d'']
   \<and> is_walk [(''p'', [''a'', ''b'']), (''a'', [''c'']), (''b'', [''c'', ''a'']), (''c'', [''d'', ''a''])]
        [''a'', ''c'', ''d'']
   \<and> hd [''a'', ''c'', ''d''] \<in> set [''a'', ''b'']
   \<and> last [''a'', ''c'', ''d''] = ''d''
   \<and> is_walk [(''p'', [''a'', ''b'']), (''a'', [''c'']), (''b'', [''c'', ''a'']), (''c'', [''d'', ''a''])]
        [''b'', ''a'', ''c'', ''d'']
   \<and> length [''a'', ''c'', ''d''] - 1 \<le> length [''b'', ''a'', ''c'', ''d''] - 1"
proof -
  have e: "map_of (trace_dependency_paths
      [(''p'', [''a'', ''b'']), (''a'', [''c'']), (''b'', [''c'', ''a'']), (''c'', [''d'', ''a''])]
      [''a'', ''b'']) ''d'' = Some [''a'', ''c'', ''d'']"
    by code_simp
  have w: "is_walk [(''p'', [''a'', ''b'']), (''a'', [''c'']), (''b'', [''c'', ''a'']), (''c'', [''d'', ''a''])]
        [''b'', ''a'', ''c'', ''d'']"
    by code_simp
  from trace_paths_shortest [OF e] e w show ?thesis by simp
qed

text \<open>
  Claim C9: two runs on the same reverse graph and the same seed set, with the seeds and
  the adjacency sets iterated in different orders, reach the same nodes and record paths
  of the same length for each of them. The paths themselves may differ, as the witness
  shows.
\<close>

theorem trace_order_independent:
  assumes "set seeds1 = set seeds2"
    and "\<forall>k. set (dependents_of g1 k) = set (dependents_of g2 k)"
  shows "fst ` set (trace_dependency_paths g1 seeds1) = fst ` set (trace_dependency_paths g2 seeds2)
       \<and> (\<forall>v p1 p2. map_of (trace_dependency_paths g1 seeds1) v = Some p1
                   \<and> map_of (trace_dependency_paths g2 seeds2) v = Some p2
              \<longrightarrow> length p1 = length p2)"
proof -
  from assms have sym: "set seeds2 = set seeds1"
    "\<forall>k. set (dependents_of g2 k) = set (dependents_of g1 k)" by simp_all
  have "fst ` set (trace_dependency_paths g1 seeds1) = fst ` set (trace_dependency_paths g2 seeds2)"
    using trace_keys_mono [OF assms(2,1)] trace_keys_mono [OF sym(2,1)] by (rule equalityI)
  moreover have "length p1 = length p2"
    if "map_of (trace_dependency_paths g1 seeds1) v = Some p1"
      "map_of (trace_dependency_paths g2 seeds2) v = Some p2" for v p1 p2
    using trace_length_le [OF assms(2,1) that] trace_length_le [OF sym(2,1) that(2,1)]
    by (rule order_antisym)
  ultimately show ?thesis by blast
qed

theorem trace_order_independent_witness:
  "trace_dependency_paths [(''a'', [''c'']), (''b'', [''c''])] [''a'', ''b'']
     = [(''c'', [''a'', ''c''])]
   \<and> trace_dependency_paths [(''b'', [''c'']), (''a'', [''c''])] [''b'', ''a'']
     = [(''c'', [''b'', ''c''])]
   \<and> fst ` set (trace_dependency_paths [(''a'', [''c'']), (''b'', [''c''])] [''a'', ''b''])
     = fst ` set (trace_dependency_paths [(''b'', [''c'']), (''a'', [''c''])] [''b'', ''a''])"
proof -
  have s: "set [''a'', ''b''] = set [''b'', ''a'']" by auto
  have g: "\<forall>k. set (dependents_of [(''a'', [''c'']), (''b'', [''c''])] k)
             = set (dependents_of [(''b'', [''c'']), (''a'', [''c''])] k)"
    by (simp add: dependents_of_def)
  have 1: "trace_dependency_paths [(''a'', [''c'']), (''b'', [''c''])] [''a'', ''b'']
     = [(''c'', [''a'', ''c''])]"
    by code_simp
  have 2: "trace_dependency_paths [(''b'', [''c'']), (''a'', [''c''])] [''b'', ''a'']
     = [(''c'', [''b'', ''c''])]"
    by code_simp
  from trace_order_independent [OF s g] 1 2 show ?thesis by simp
qed

text \<open>
  Claim C5: when every caller of an edge is a known module, the direct dependents of a
  package (the callers of the edges whose target is the package or starts with the
  package followed by a dot), the nodes reached by the trace and the result of
  \<open>not_pkg_dep\<close> together are exactly the module set.
\<close>

theorem pkg_partition_complete:
  assumes "fst ` set all_imports \<subseteq> all_modules" and "package \<noteq> []"
  shows "\<exists>not_dependent.
           not_pkg_dep all_modules all_imports (Some package) = Some not_dependent
         \<and> set (direct_dependents all_imports package) =
             {caller. \<exists>target. (caller, target) \<in> set all_imports \<and>
                (target = package \<or> startswith target (package @ ''.''))}
         \<and> set (direct_dependents all_imports package)
             \<union> fst ` set (trace_dependency_paths (build_reverse_dep_graph all_imports)
                            (direct_dependents all_imports package))
             \<union> not_dependent = all_modules"
proof -
  let ?direct = "direct_dependents all_imports package"
  let ?paths = "trace_dependency_paths (build_reverse_dep_graph all_imports) ?direct"
  have d: "set ?direct = {caller. \<exists>target. (caller, target) \<in> set all_imports \<and>
                (target = package \<or> startswith target (package @ ''.''))}"
    by (force simp: direct_dependents_def)
  then have "set ?direct \<subseteq> fst ` set all_imports" by force
  with assms(1) have 1: "set ?direct \<subseteq> all_modules" by blast
  have 2: "fst ` set ?paths \<subseteq> all_modules"
  proof
    fix v assume "v \<in> fst ` set ?paths"
    from trace_keys_dependents [OF this] obtain u
      where "v \<in> set (dependents_of (build_reverse_dep_graph all_imports) u)" by blast
    then have "(v, u) \<in> set all_imports" by (simp add: dependents_build)
    then have "v \<in> fst ` set all_imports" by force
    with assms(1) show "v \<in> all_modules" by blast
  qed
  have "not_pkg_dep all_modules all_imports (Some package)
      = Some (all_modules - (fst ` set ?paths \<union> set ?direct))"
    using assms(2) by (simp add: not_pkg_dep_def Let_def)
  moreover from 1 2 have "set ?direct \<union> fst ` set ?paths
      \<union> (all_modules - (fst ` set ?paths \<union> set ?direct)) = all_modules" by blast
  ultimately show ?thesis using d by blast
qed

theorem pkg_partition_complete_witness:
  "(\<exists>not_dependent.
      not_pkg_dep {''r.a'', ''r.b'', ''r.c'', ''r.d''}
        [(''r.a'', ''pkg.x''), (''r.b'', ''r.a''), (''r.c'', ''pkgs'')] (Some ''pkg'')
        = Some not_dependent
    \<and> set (direct_dependents [(''r.a'', ''pkg.x''), (''r.b'', ''r.a''), (''r.c'', ''pkgs'')] ''pkg'') =
        {caller. \<exists>target. (caller, target) \<in>
             set [(''r.a'', ''pkg.x''), (''r.b'', ''r.a''), (''r.c'', ''pkgs'')] \<and>
           (target = ''pkg'' \<or> startswith target (''pkg'' @ ''.''))}
    \<and> set (direct_dependents [(''r.a'', ''pkg.x''), (''r.b'', ''r.a''), (''r.c'', ''pkgs'')] ''pkg'')
        \<union> fst ` set (trace_dependency_paths
            (build_reverse_dep_graph [(''r.a'', ''pkg.x''), (''r.b'', ''r.a''), (''r.c'', ''pkgs'')])
            (direct_dependents [(''r.a'', ''pkg.x''), (''r.b'', ''r.a''), (''r.c'', ''pkgs'')] ''pkg''))
        \<union> not_dependent = {''r.a'', ''r.b'', ''r.c'', ''r.d''})
   \<and> not_pkg_dep {''r.a'', ''r.b'', ''r.c'', ''r.d''}
        [(''r.a'', ''pkg.x''), (''r.b'', ''r.a''), (''r.c'', ''pkgs'')] (Some ''pkg'')
        = Some {''r.c'', ''r.d''}"
proof -
  have h: "fst ` set [(''r.a'', ''pkg.x''), (''r.b'', ''r.a''), (''r.c'', ''pkgs'')]
      \<subseteq> {''r.a'', ''r.b'', ''r.c'', ''r.d''}" "''pkg'' \<noteq> []" by simp_all
  have d: "direct_dependents [(''r.a'', ''pkg.x''), (''r.b'', ''r.a''), (''r.c'', ''pkgs'')] ''pkg''
      = [''r.a'']"
    by code_simp
  have t: "trace_dependency_paths
      (build_reverse_dep_graph [(''r.a'', ''pkg.x''), (''r.b'', ''r.a''), (''r.c'', ''pkgs'')])
      [''r.a''] = [(''r.b'', [''r.a'', ''r.b''])]"
    by code_simp
  have n: "{''r.a'', ''r.b'', ''r.c'', ''r.d''} - ({''r.b''} \<union> {''r.a''}) = {''r.c'', ''r.d''}"
    by (simp add: insert_Diff_if)
  have c: "not_pkg_dep {''r.a'', ''r.b'', ''r.c'', ''r.d''}
        [(''r.a'', ''pkg.x''), (''r.b'', ''r.a''), (''r.c'', ''pkgs'')] (Some ''pkg'')
        = Some {''r.c'', ''r.d''}"
    by (simp add: not_pkg_dep_def Let_def d t n)
  show ?thesis
    by (rule conjI [OF pkg_partition_complete [OF h] c])
qed

end
